theory Spec2Isabelle
  imports Main "HOL-Library.AList"
begin

section \<open>Values, items and dictionaries\<close>

text \<open>
  The store of \<^verbatim>\<open>solution.py\<close> indexes a list of Python dictionaries. Every item is
  read through its keys \<^verbatim>\<open>"id"\<close> and \<^verbatim>\<open>"parent"\<close> only; whatever else it carries is
  kept as it is. The values met as identifiers are integers, strings and \<^verbatim>\<open>None\<close>;
  the root marker is the string \<^verbatim>\<open>"root"\<close>, a value of the same universe as the
  identifiers. Booleans and floats, which Python takes for the integers they equal when
  they are keys, are left out. An item that lacks one of the two keys (a \<^verbatim>\<open>KeyError\<close> at lines 41-42)
  is outside the item type.
\<close>

datatype pyval = PInt int | PStr string | PNone

definition root :: pyval where
  "root = PStr ''root''"

record item =
  item_id :: pyval
  item_parent :: pyval
  item_fields :: "(string \<times> pyval) list"

datatype error = IdNotFoundError pyval | KeyError pyval

text \<open>
  A Python \<^verbatim>\<open>dict\<close> keeps its keys in the order of their first insertion and
  overwrites in place: an association list with distinct keys under
  \<^const>\<open>AList.update\<close>, read with \<^const>\<open>map_of\<close>.
\<close>

type_synonym ('k, 'v) dict = "('k \<times> 'v) list"

definition dict_contains :: "('k, 'v) dict \<Rightarrow> 'k \<Rightarrow> bool" where
  "dict_contains d k = (map_of d k \<noteq> None)"

definition dict_keys :: "('k, 'v) dict \<Rightarrow> 'k list" where
  "dict_keys d = map fst d"

text \<open>
  \<^verbatim>\<open>defaultdict(list)\<close>: reading a key that is absent stores the empty list under
  it and returns that list, so a read returns the dictionary too.
\<close>

definition dd_getitem :: "('k, 'v list) dict \<Rightarrow> 'k \<Rightarrow> 'v list \<times> ('k, 'v list) dict" where
  "dd_getitem d k =
     (case map_of d k of
        Some v \<Rightarrow> (v, d)
      | None \<Rightarrow> ([], AList.update k [] d))"

text \<open>\<^verbatim>\<open>d[k].append(x)\<close> on a \<^verbatim>\<open>defaultdict(list)\<close>.\<close>

definition dd_append :: "('k, 'v list) dict \<Rightarrow> 'k \<Rightarrow> 'v \<Rightarrow> ('k, 'v list) dict" where
  "dd_append d k x = (case dd_getitem d k of (v, d') \<Rightarrow> AList.update k (v @ [x]) d')"

text \<open>What a key stands for in a \<^verbatim>\<open>defaultdict(list)\<close>, stored or not.\<close>

definition dd_value :: "('k, 'v list) dict \<Rightarrow> 'k \<Rightarrow> 'v list" where
  "dd_value d k = (case map_of d k of Some v \<Rightarrow> v | None \<Rightarrow> [])"

section \<open>The store\<close>

record TreeStore =
  items :: "item list"
  itemId :: "(pyval, item) dict"
  parentChild :: "(pyval, item list) dict"
  idAllParents :: "(pyval, item list) dict"

text \<open>
  Below, \<open>byId\<close>, \<open>childrenOf\<close> and \<open>ancestorsOf\<close> are the local dictionaries that
  become the fields \<open>itemId\<close>, \<open>parentChild\<close> and \<open>idAllParents\<close> of the store.
\<close>

text \<open>The loop of \<^verbatim>\<open>_createDictsForItems\<close> (lines 40-44), over the two dictionaries.\<close>

fun createDictsForItems_for ::
  "item list \<Rightarrow> (pyval, item) dict \<times> (pyval, item list) dict
     \<Rightarrow> (pyval, item) dict \<times> (pyval, item list) dict" where
  "createDictsForItems_for [] (byId, childrenOf) = (byId, childrenOf)"
| "createDictsForItems_for (item # rest) (byId, childrenOf) =
     createDictsForItems_for rest
       (AList.update (item_id item) item byId,
        dd_append childrenOf (item_parent item) item)"

definition createDictsForItems ::
  "item list \<Rightarrow> (pyval, item) dict \<times> (pyval, item list) dict" where
  "createDictsForItems its = createDictsForItems_for its ([], [])"

text \<open>
  The \<^verbatim>\<open>while\<close> loop of \<^verbatim>\<open>_calculateParents\<close> (lines 63-66). It has no bound: the
  result is \<open>None\<close> when it runs forever. \<^verbatim>\<open>itemId[parent]\<close> raises \<^verbatim>\<open>KeyError\<close> on a
  parent that is no key.
\<close>

partial_function (option) calculateParents_while ::
  "(pyval, item) dict \<Rightarrow> pyval \<Rightarrow> pyval \<Rightarrow> (pyval, item list) dict
     \<Rightarrow> (error + (pyval, item list) dict) option" where
  "calculateParents_while byId key parent ancestorsOf =
     (if parent = root then Some (Inr ancestorsOf)
      else case map_of byId parent of
             None \<Rightarrow> Some (Inl (KeyError parent))
           | Some it \<Rightarrow>
               calculateParents_while byId key (item_parent it)
                 (dd_append ancestorsOf key it))"

text \<open>The \<^verbatim>\<open>for\<close> loop of \<^verbatim>\<open>_calculateParents\<close> (lines 60-66), over the keys left.\<close>

fun calculateParents_for ::
  "(pyval, item) dict \<Rightarrow> pyval list \<Rightarrow> (pyval, item list) dict
     \<Rightarrow> (error + (pyval, item list) dict) option" where
  "calculateParents_for byId [] ancestorsOf = Some (Inr ancestorsOf)"
| "calculateParents_for byId (key # keys) ancestorsOf =
     (case map_of byId key of
        None \<Rightarrow> Some (Inl (KeyError key))
      | Some it \<Rightarrow>
          (case calculateParents_while byId key (item_parent it) ancestorsOf of
             None \<Rightarrow> None
           | Some (Inl e) \<Rightarrow> Some (Inl e)
           | Some (Inr ancestorsOf') \<Rightarrow> calculateParents_for byId keys ancestorsOf'))"

definition calculateParents ::
  "(pyval, item) dict \<Rightarrow> (error + (pyval, item list) dict) option" where
  "calculateParents byId = calculateParents_for byId (dict_keys byId) []"

text \<open>
  \<^verbatim>\<open>TreeStore.__init__\<close>: \<open>None\<close> when construction never returns, \<open>Some (Inl e)\<close> when it
  raises, \<open>Some (Inr self)\<close> when it yields the store.
\<close>

definition TreeStore_init :: "item list \<Rightarrow> (error + TreeStore) option" where
  "TreeStore_init its =
     (case createDictsForItems its of
        (byId, childrenOf) \<Rightarrow>
          (case calculateParents byId of
             None \<Rightarrow> None
           | Some (Inl e) \<Rightarrow> Some (Inl e)
           | Some (Inr ancestorsOf) \<Rightarrow>
               Some (Inr \<lparr>items = its, itemId = byId, parentChild = childrenOf,
                          idAllParents = ancestorsOf\<rparr>)))"

section \<open>The queries\<close>

text \<open>
  A query returns its result, or the error it raises, and the store after the call:
  \<^verbatim>\<open>getChildren\<close> and \<^verbatim>\<open>getAllParents\<close> read a \<^verbatim>\<open>defaultdict\<close>.
\<close>

definition getAll :: "TreeStore \<Rightarrow> item list \<times> TreeStore" where
  "getAll self = (items self, self)"

definition getItem :: "TreeStore \<Rightarrow> pyval \<Rightarrow> (error + item) \<times> TreeStore" where
  "getItem self ID =
     (if \<not> dict_contains (itemId self) ID then (Inl (IdNotFoundError ID), self)
      else case map_of (itemId self) ID of
             None \<Rightarrow> (Inl (KeyError ID), self)
           | Some it \<Rightarrow> (Inr it, self))"

definition getChildren :: "TreeStore \<Rightarrow> pyval \<Rightarrow> (error + item list) \<times> TreeStore" where
  "getChildren self ID =
     (if \<not> dict_contains (itemId self) ID then (Inl (IdNotFoundError ID), self)
      else case dd_getitem (parentChild self) ID of
             (v, d) \<Rightarrow> (Inr v, self\<lparr>parentChild := d\<rparr>))"

definition getAllParents :: "TreeStore \<Rightarrow> pyval \<Rightarrow> (error + item list) \<times> TreeStore" where
  "getAllParents self ID =
     (if \<not> dict_contains (itemId self) ID then (Inl (IdNotFoundError ID), self)
      else case dd_getitem (idAllParents self) ID of
             (v, d) \<Rightarrow> (Inr v, self\<lparr>idAllParents := d\<rparr>))"

section \<open>The data model's invariants\<close>

text \<open>
  The links from a child's identifier up to its parent's, the root marker left out:
  a pair \<open>(p, c)\<close> says that an item with identifier \<open>c\<close> names \<open>p\<close> as its parent.
\<close>

definition parent_rel :: "item list \<Rightarrow> (pyval \<times> pyval) set" where
  "parent_rel its =
     {(item_parent i, item_id i) | i. i \<in> set its \<and> item_parent i \<noteq> root}"

text \<open>No parent points outside the input, and no chain of parents comes back to itself.\<close>

definition no_dangling :: "item list \<Rightarrow> bool" where
  "no_dangling its \<longleftrightarrow>
     (\<forall>i \<in> set its. item_parent i = root \<or> item_parent i \<in> item_id ` set its)"

text \<open>The invariants of the input: unique identifiers, no dangling parent, no cycle.\<close>

definition valid_items :: "item list \<Rightarrow> bool" where
  "valid_items its \<longleftrightarrow>
     distinct (map item_id its) \<and> no_dangling its \<and> acyclic (parent_rel its)"

text \<open>
  The chain of ancestors above a parent reference \<open>p\<close>: empty at the root marker,
  else the item that \<open>p\<close> names followed by the chain above that item's own parent.
\<close>

fun ancestor_chain :: "item list \<Rightarrow> pyval \<Rightarrow> item list \<Rightarrow> bool" where
  "ancestor_chain its p [] \<longleftrightarrow> p = root"
| "ancestor_chain its p (a # as) \<longleftrightarrow>
     p \<noteq> root \<and> a \<in> set its \<and> item_id a = p \<and> ancestor_chain its (item_parent a) as"

section \<open>Calls in sequence\<close>

text \<open>A caller's queries, the answer to each, and the store after a list of them.\<close>

datatype query = GetAll | GetItem pyval | GetChildren pyval | GetAllParents pyval

datatype reply = ItemList "item list" | OneItem item | Raised error

fun run_query :: "TreeStore \<Rightarrow> query \<Rightarrow> reply \<times> TreeStore" where
  "run_query self GetAll = (case getAll self of (r, self') \<Rightarrow> (ItemList r, self'))"
| "run_query self (GetItem ID) =
     (case getItem self ID of
        (Inl e, self') \<Rightarrow> (Raised e, self')
      | (Inr i, self') \<Rightarrow> (OneItem i, self'))"
| "run_query self (GetChildren ID) =
     (case getChildren self ID of
        (Inl e, self') \<Rightarrow> (Raised e, self')
      | (Inr r, self') \<Rightarrow> (ItemList r, self'))"
| "run_query self (GetAllParents ID) =
     (case getAllParents self ID of
        (Inl e, self') \<Rightarrow> (Raised e, self')
      | (Inr r, self') \<Rightarrow> (ItemList r, self'))"

fun run_queries :: "TreeStore \<Rightarrow> query list \<Rightarrow> TreeStore" where
  "run_queries self [] = self"
| "run_queries self (q # qs) = run_queries (snd (run_query self q)) qs"

text \<open>
  What a list of queries can leave behind: the identifiers given to \<open>getChildren\<close> and
  to \<open>getAllParents\<close>, in the order asked, and of those the ones that are an item's
  identifier and not yet a key of the dictionary read, each once, where first asked.
\<close>

fun asked_children :: "query list \<Rightarrow> pyval list" where
  "asked_children [] = []"
| "asked_children (GetChildren X # qs) = X # asked_children qs"
| "asked_children (q # qs) = asked_children qs"

fun asked_parents :: "query list \<Rightarrow> pyval list" where
  "asked_parents [] = []"
| "asked_parents (GetAllParents X # qs) = X # asked_parents qs"
| "asked_parents (q # qs) = asked_parents qs"

fun first_occurrences :: "'a list \<Rightarrow> 'a list" where
  "first_occurrences [] = []"
| "first_occurrences (x # xs) = x # first_occurrences (removeAll x xs)"

definition fresh_keys :: "('k, 'a) dict \<Rightarrow> ('k, 'v list) dict \<Rightarrow> 'k list \<Rightarrow> 'k list" where
  "fresh_keys byId d Xs =
     first_occurrences (filter (\<lambda>X. dict_contains byId X \<and> \<not> dict_contains d X) Xs)"

section \<open>The scenarios\<close>

text \<open>The eight items of \<^verbatim>\<open>testValidCommands\<close> and the store built from them.\<close>

definition item1 :: item where
  "item1 = \<lparr>item_id = PInt 1, item_parent = root, item_fields = []\<rparr>"

definition item2 :: item where
  "item2 = \<lparr>item_id = PInt 2, item_parent = PInt 1,
             item_fields = [(''type'', PStr ''test'')]\<rparr>"

definition item3 :: item where
  "item3 = \<lparr>item_id = PInt 3, item_parent = PInt 1,
             item_fields = [(''type'', PStr ''test'')]\<rparr>"

definition item4 :: item where
  "item4 = \<lparr>item_id = PInt 4, item_parent = PInt 2,
             item_fields = [(''type'', PStr ''test'')]\<rparr>"

definition item5 :: item where
  "item5 = \<lparr>item_id = PInt 5, item_parent = PInt 2,
             item_fields = [(''type'', PStr ''test'')]\<rparr>"

definition item6 :: item where
  "item6 = \<lparr>item_id = PInt 6, item_parent = PInt 2,
             item_fields = [(''type'', PStr ''test'')]\<rparr>"

definition item7 :: item where
  "item7 = \<lparr>item_id = PInt 7, item_parent = PInt 4, item_fields = [(''type'', PNone)]\<rparr>"

definition item8 :: item where
  "item8 = \<lparr>item_id = PInt 8, item_parent = PInt 4, item_fields = [(''type'', PNone)]\<rparr>"

definition test_items :: "item list" where
  "test_items = [item1, item2, item3, item4, item5, item6, item7, item8]"

definition test_store :: TreeStore where
  "test_store =
     \<lparr>items = test_items,
      itemId = [(PInt 1, item1), (PInt 2, item2), (PInt 3, item3), (PInt 4, item4),
                (PInt 5, item5), (PInt 6, item6), (PInt 7, item7), (PInt 8, item8)],
      parentChild = [(root, [item1]), (PInt 1, [item2, item3]),
                     (PInt 2, [item4, item5, item6]), (PInt 4, [item7, item8])],
      idAllParents = [(PInt 2, [item1]), (PInt 3, [item1]), (PInt 4, [item2, item1]),
                      (PInt 5, [item2, item1]), (PInt 6, [item2, item1]),
                      (PInt 7, [item4, item2, item1]), (PInt 8, [item4, item2, item1])]\<rparr>"

text \<open>An input that uses identifier 1 twice, with a child between the two.\<close>

definition item1_again :: item where
  "item1_again = \<lparr>item_id = PInt 1, item_parent = root,
                   item_fields = [(''type'', PStr ''again'')]\<rparr>"

text \<open>An item whose identifier is the root marker itself, and the store of it and item 1.\<close>

definition item_root :: item where
  "item_root = \<lparr>item_id = root, item_parent = root, item_fields = []\<rparr>"

definition root_store :: TreeStore where
  "root_store =
     \<lparr>items = [item_root, item1],
      itemId = [(root, item_root), (PInt 1, item1)],
      parentChild = [(root, [item_root, item1])],
      idAllParents = []\<rparr>"

section \<open>Dictionaries\<close>

lemma dd_value_getitem_fst: "fst (dd_getitem d k) = dd_value d k"
  by (simp add: dd_getitem_def dd_value_def split: option.splits)

lemma dd_value_getitem_snd: "dd_value (snd (dd_getitem d k)) k' = dd_value d k'"
  by (simp add: dd_getitem_def dd_value_def AList.update_conv' split: option.splits)

lemma map_of_dd_append:
  "map_of (dd_append d k x) = (map_of d)(k \<mapsto> dd_value d k @ [x])"
  by (simp add: dd_append_def dd_getitem_def dd_value_def AList.update_conv' split: option.splits)

lemma dd_value_dd_append:
  "dd_value (dd_append d k x) k' = (if k' = k then dd_value d k @ [x] else dd_value d k')"
  by (simp add: dd_value_def map_of_dd_append)

lemma createDicts_for_byId:
  "map_of (fst (createDictsForItems_for its (b, c))) =
     map_of b ++ map_of (rev (map (\<lambda>i. (item_id i, i)) its))"
  by (induction its arbitrary: b c) (simp_all add: AList.update_conv' map_add_upd_left)

lemma createDicts_for_children:
  "dd_value (snd (createDictsForItems_for its (b, c))) k =
     dd_value c k @ filter (\<lambda>i. item_parent i = k) its"
  by (induction its arbitrary: b c) (simp_all add: dd_value_dd_append)

lemma createDicts_for_keys:
  "set (dict_keys (fst (createDictsForItems_for its (b, c)))) = set (dict_keys b) \<union> item_id ` set its"
  by (induction its arbitrary: b c) (auto simp add: dict_keys_def AList.dom_update)

lemma createDicts_for_distinct:
  "distinct (dict_keys b) \<Longrightarrow> distinct (dict_keys (fst (createDictsForItems_for its (b, c))))"
  by (induction its arbitrary: b c) (simp_all add: dict_keys_def AList.distinct_update)

lemma byId_last:
  "map_of (fst (createDictsForItems its)) =
     map_of (rev (map (\<lambda>i. (item_id i, i)) its))"
  by (simp add: createDictsForItems_def createDicts_for_byId)

lemma byId_None:
  "map_of (fst (createDictsForItems its)) k = None \<longleftrightarrow> k \<notin> item_id ` set its"
  by (simp add: byId_last map_of_eq_None_iff image_image)

lemma byId_Some_mem:
  "map_of (fst (createDictsForItems its)) k = Some i \<Longrightarrow> i \<in> set its \<and> item_id i = k"
  by (auto simp add: byId_last dest!: map_of_SomeD)

lemma byId_distinct:
  "distinct (map item_id its) \<Longrightarrow> i \<in> set its \<Longrightarrow>
     map_of (fst (createDictsForItems its)) (item_id i) = Some i"
  by (simp add: byId_last distinct_rev rev_map[symmetric] comp_def map_of_is_SomeI)

lemma byId_later:
  "item_id y = k \<Longrightarrow> k \<notin> item_id ` set zs \<Longrightarrow>
     map_of (fst (createDictsForItems (xs @ y # zs))) k = Some y"
  by (simp add: byId_last map_add_def map_of_eq_None_iff[THEN iffD2] image_image split: option.splits)

lemma dd_value_Nil: "dd_value [] k = []"
  by (simp add: dd_value_def)

lemma children_filter:
  "dd_value (snd (createDictsForItems its)) k = filter (\<lambda>i. item_parent i = k) its"
  by (simp add: createDictsForItems_def createDicts_for_children dd_value_Nil)

section \<open>The walk to the root\<close>

lemma finite_parent_rel: "finite (parent_rel its)"
proof -
  have "parent_rel its \<subseteq> (\<lambda>i. (item_parent i, item_id i)) ` set its"
    by (auto simp add: parent_rel_def)
  then show ?thesis
    by (rule finite_subset) simp
qed

lemma wf_parent_rel: "valid_items its \<Longrightarrow> wf (parent_rel its)"
  by (simp add: valid_items_def finite_acyclic_wf finite_parent_rel)

lemma while_chain:
  assumes v: "valid_items its"
    and byId: "\<And>i. i \<in> set its \<Longrightarrow> map_of byId (item_id i) = Some i"
  shows "p = root \<or> p \<in> item_id ` set its \<Longrightarrow>
     \<exists>chain res. ancestor_chain its p chain \<and>
       calculateParents_while byId key p acc = Some (Inr res) \<and>
       (\<forall>k. dd_value res k = (if k = key then dd_value acc k @ chain else dd_value acc k))"
  using wf_parent_rel[OF v]
proof (induction p arbitrary: acc rule: wf_induct_rule)
  case (less p)
  show ?case
  proof (cases "p = root")
    case True
    have "calculateParents_while byId key p acc = Some (Inr acc)"
      by (subst calculateParents_while.simps) (simp add: True)
    moreover have "ancestor_chain its p []"
      by (simp add: True)
    ultimately show ?thesis
      by (intro exI[of _ "[]"] exI[of _ acc]) simp
  next
    case False
    with less.prems obtain i where i: "i \<in> set its" "item_id i = p"
      by auto
    have look: "map_of byId p = Some i"
      using byId[OF i(1)] i(2) by simp
    have par: "item_parent i = root \<or> item_parent i \<in> item_id ` set its"
      using v i(1) by (auto simp add: valid_items_def no_dangling_def)
    have step: "calculateParents_while byId key p acc =
        calculateParents_while byId key (item_parent i) (dd_append acc key i)"
      by (subst calculateParents_while.simps) (simp add: False look)
    obtain chain res where c: "ancestor_chain its (item_parent i) chain"
      and r: "calculateParents_while byId key (item_parent i) (dd_append acc key i) = Some (Inr res)"
      and d: "\<forall>k. dd_value res k =
          (if k = key then dd_value (dd_append acc key i) k @ chain
           else dd_value (dd_append acc key i) k)"
    proof (cases "item_parent i = root")
      case True
      have "calculateParents_while byId key (item_parent i) (dd_append acc key i) =
          Some (Inr (dd_append acc key i))"
        by (subst calculateParents_while.simps) (simp add: True)
      then show ?thesis
        using that[of "[]" "dd_append acc key i"] True by simp
    next
      case nr: False
      then have "(item_parent i, p) \<in> parent_rel its"
        using i by (auto simp add: parent_rel_def)
      from less.IH[OF this par, of "dd_append acc key i"] show ?thesis
        using that by blast
    qed
    have "ancestor_chain its p (i # chain)"
      using False i c by simp
    moreover have "calculateParents_while byId key p acc = Some (Inr res)"
      using step r by simp
    moreover have "\<forall>k. dd_value res k =
        (if k = key then dd_value acc k @ (i # chain) else dd_value acc k)"
      using d by (simp add: dd_value_dd_append)
    ultimately show ?thesis
      by blast
  qed
qed

lemma for_chain:
  assumes v: "valid_items its"
    and byId: "\<And>i. i \<in> set its \<Longrightarrow> map_of byId (item_id i) = Some i"
  shows "set ks \<subseteq> item_id ` set its \<Longrightarrow> distinct ks \<Longrightarrow>
     \<exists>res. calculateParents_for byId ks acc = Some (Inr res) \<and>
       (\<forall>k. k \<notin> set ks \<longrightarrow> dd_value res k = dd_value acc k) \<and>
       (\<forall>i \<in> set its. item_id i \<in> set ks \<longrightarrow>
          (\<exists>chain. ancestor_chain its (item_parent i) chain \<and>
             dd_value res (item_id i) = dd_value acc (item_id i) @ chain))"
proof (induction ks arbitrary: acc)
  case Nil
  then show ?case by simp
next
  case (Cons key ks)
  from Cons.prems obtain i where i: "i \<in> set its" "item_id i = key"
    by auto
  have look: "map_of byId key = Some i"
    using byId[OF i(1)] i(2) by simp
  have par: "item_parent i = root \<or> item_parent i \<in> item_id ` set its"
    using v i(1) by (auto simp add: valid_items_def no_dangling_def)
  from while_chain[OF v byId par, of key acc]
  obtain chain mid where c: "ancestor_chain its (item_parent i) chain"
    and w: "calculateParents_while byId key (item_parent i) acc = Some (Inr mid)"
    and d: "\<forall>k. dd_value mid k = (if k = key then dd_value acc k @ chain else dd_value acc k)"
    by blast
  have "set ks \<subseteq> item_id ` set its" "distinct ks" "key \<notin> set ks"
    using Cons.prems by auto
  from Cons.IH[OF this(1,2), of mid]
  obtain res where r: "calculateParents_for byId ks mid = Some (Inr res)"
    and o: "\<forall>k. k \<notin> set ks \<longrightarrow> dd_value res k = dd_value mid k"
    and a: "\<forall>j \<in> set its. item_id j \<in> set ks \<longrightarrow>
          (\<exists>chain. ancestor_chain its (item_parent j) chain \<and>
             dd_value res (item_id j) = dd_value mid (item_id j) @ chain)"
    by blast
  have run: "calculateParents_for byId (key # ks) acc = Some (Inr res)"
    by (simp add: look w r)
  have other: "\<forall>k. k \<notin> set (key # ks) \<longrightarrow> dd_value res k = dd_value acc k"
    using o d by simp
  have mine: "\<forall>j \<in> set its. item_id j \<in> set (key # ks) \<longrightarrow>
          (\<exists>chain. ancestor_chain its (item_parent j) chain \<and>
             dd_value res (item_id j) = dd_value acc (item_id j) @ chain)"
  proof (intro ballI impI)
    fix j assume j: "j \<in> set its" "item_id j \<in> set (key # ks)"
    show "\<exists>chain. ancestor_chain its (item_parent j) chain \<and>
             dd_value res (item_id j) = dd_value acc (item_id j) @ chain"
    proof (cases "item_id j = key")
      case True
      have "map_of byId key = Some j"
        using byId[OF j(1)] True by simp
      with look have "j = i" by simp
      moreover have "dd_value res key = dd_value acc key @ chain"
        using o d \<open>key \<notin> set ks\<close> by simp
      ultimately show ?thesis
        using c True by auto
    next
      case False
      with j have "item_id j \<in> set ks" by simp
      with a j(1) obtain ch where "ancestor_chain its (item_parent j) ch"
        "dd_value res (item_id j) = dd_value mid (item_id j) @ ch"
        by blast
      then show ?thesis
        using d False by auto
    qed
  qed
  show ?case
    using run other mine by blast
qed

section \<open>Chains and construction\<close>

lemma acyclic_by_rank:
  assumes "\<And>p c. (p, c) \<in> r \<Longrightarrow> f p < (f c :: nat)"
  shows "acyclic r"
proof -
  have "r \<subseteq> inv_image less_than f"
    using assms by auto
  moreover have "wf (inv_image less_than f)"
    by simp
  ultimately have "wf r"
    by (rule wf_subset[rotated])
  then show ?thesis
    by (rule wf_acyclic)
qed

lemma ancestor_chain_set:
  "set its = set its' \<Longrightarrow> ancestor_chain its p c = ancestor_chain its' p c"
  by (induction c arbitrary: p) simp_all

lemma ancestor_chain_index:
  "ancestor_chain its p ps \<Longrightarrow>
     (p = root \<longrightarrow> ps = []) \<and>
     (p \<noteq> root \<longrightarrow> ps \<noteq> [] \<and> hd ps \<in> set its \<and> item_id (hd ps) = p \<and>
        item_parent (last ps) = root) \<and>
     (\<forall>n. Suc n < length ps \<longrightarrow>
        ps ! Suc n \<in> set its \<and> item_id (ps ! Suc n) = item_parent (ps ! n) \<and>
        item_parent (ps ! n) \<noteq> root)"
proof (induction ps arbitrary: p)
  case Nil
  then show ?case by simp
next
  case (Cons a ps)
  then have a: "p \<noteq> root" "a \<in> set its" "item_id a = p"
    and rest: "ancestor_chain its (item_parent a) ps"
    by simp_all
  note ih = Cons.IH[OF rest]
  have last: "item_parent (last (a # ps)) = root"
    using ih by (cases ps) auto
  have step: "\<forall>n. Suc n < length (a # ps) \<longrightarrow>
        (a # ps) ! Suc n \<in> set its \<and> item_id ((a # ps) ! Suc n) = item_parent ((a # ps) ! n) \<and>
        item_parent ((a # ps) ! n) \<noteq> root"
  proof (intro allI impI)
    fix n assume n: "Suc n < length (a # ps)"
    show "(a # ps) ! Suc n \<in> set its \<and> item_id ((a # ps) ! Suc n) = item_parent ((a # ps) ! n) \<and>
        item_parent ((a # ps) ! n) \<noteq> root"
    proof (cases n)
      case 0
      with n have "ps \<noteq> []" by auto
      with ih have "item_parent a \<noteq> root" by auto
      with ih 0 \<open>ps \<noteq> []\<close> show ?thesis
        by (simp add: hd_conv_nth)
    next
      case (Suc m)
      with n ih show ?thesis by simp
    qed
  qed
  show ?case
    using a last step by simp
qed

lemma init_fields:
  assumes "TreeStore_init its = Some (Inr s)"
  shows "items s = its" and "itemId s = fst (createDictsForItems its)"
    and "parentChild s = snd (createDictsForItems its)"
    and "calculateParents (fst (createDictsForItems its)) = Some (Inr (idAllParents s))"
  using assms
  by (auto simp add: TreeStore_init_def split: prod.splits option.splits sum.splits)

lemma init_from_parents:
  "calculateParents (fst (createDictsForItems its)) = Some (Inr a) \<Longrightarrow>
     TreeStore_init its =
       Some (Inr \<lparr>items = its, itemId = fst (createDictsForItems its),
                  parentChild = snd (createDictsForItems its), idAllParents = a\<rparr>)"
  by (cases "createDictsForItems its") (simp add: TreeStore_init_def)

lemma byId_entries:
  "(k, i) \<in> set (fst (createDictsForItems its)) \<Longrightarrow> i \<in> set its \<and> item_id i = k"
proof -
  assume m: "(k, i) \<in> set (fst (createDictsForItems its))"
  have "distinct (map fst (fst (createDictsForItems its)))"
    using createDicts_for_distinct[of "[]" its "[]"]
    by (simp add: createDictsForItems_def dict_keys_def)
  with m have "map_of (fst (createDictsForItems its)) k = Some i"
    by simp
  then show ?thesis
    by (rule byId_Some_mem)
qed

lemma byId_keys_distinct: "distinct (dict_keys (fst (createDictsForItems its)))"
  using createDicts_for_distinct[of "[]" its "[]"]
  by (simp add: createDictsForItems_def dict_keys_def)

lemma byId_keys_set: "set (dict_keys (fst (createDictsForItems its))) = item_id ` set its"
  using createDicts_for_keys[of its "[]" "[]"]
  by (simp add: createDictsForItems_def dict_keys_def)

text \<open>The items that the identifier dictionary still holds: the last one of each identifier.\<close>

lemma init_total:
  assumes nd: "no_dangling its" and ac: "acyclic (parent_rel its)"
  shows "\<exists>s. TreeStore_init its = Some (Inr s) \<and>
     (\<forall>i \<in> set (map snd (itemId s)).
        \<exists>chain. ancestor_chain (map snd (itemId s)) (item_parent i) chain \<and>
          dd_value (idAllParents s) (item_id i) = chain)"
proof -
  define byId where "byId = fst (createDictsForItems its)"
  define live where "live = map snd byId"
  have ent: "\<And>k i. (k, i) \<in> set byId \<Longrightarrow> i \<in> set its \<and> item_id i = k"
    unfolding byId_def by (rule byId_entries)
  have ids: "map item_id live = dict_keys byId"
    unfolding live_def dict_keys_def using ent by (auto simp add: map_eq_conv)
  have dist: "distinct (map item_id live)"
    unfolding ids byId_def by (rule byId_keys_distinct)
  have idset: "item_id ` set live = item_id ` set its"
    using ids byId_keys_set[of its] by (metis byId_def list.set_map)
  have sub: "set live \<subseteq> set its"
    unfolding live_def using ent by auto
  have "parent_rel live \<subseteq> parent_rel its"
    using sub by (auto simp add: parent_rel_def)
  with ac have ac': "acyclic (parent_rel live)"
    by (rule acyclic_subset)
  have nd': "no_dangling live"
    using nd sub idset by (auto simp add: no_dangling_def)
  have v: "valid_items live"
    using dist nd' ac' by (simp add: valid_items_def)
  have look: "\<And>i. i \<in> set live \<Longrightarrow> map_of byId (item_id i) = Some i"
  proof -
    fix i assume "i \<in> set live"
    then obtain k where k: "(k, i) \<in> set byId"
      unfolding live_def by auto
    with ent have "item_id i = k" by simp
    moreover have "distinct (map fst byId)"
      using byId_keys_distinct[of its] by (simp add: byId_def dict_keys_def)
    ultimately show "map_of byId (item_id i) = Some i"
      using k by simp
  qed
  have keys: "set (dict_keys byId) \<subseteq> item_id ` set live" "distinct (dict_keys byId)"
    using ids dist by (auto simp add: ids[symmetric])
  from for_chain[OF v look keys, of "[]"]
  obtain res where r: "calculateParents_for byId (dict_keys byId) [] = Some (Inr res)"
    and a: "\<forall>i \<in> set live. item_id i \<in> set (dict_keys byId) \<longrightarrow>
          (\<exists>chain. ancestor_chain live (item_parent i) chain \<and>
             dd_value res (item_id i) = dd_value [] (item_id i) @ chain)"
    by blast
  have "calculateParents byId = Some (Inr res)"
    using r by (simp add: calculateParents_def)
  then have init: "TreeStore_init its =
      Some (Inr \<lparr>items = its, itemId = byId, parentChild = snd (createDictsForItems its),
                 idAllParents = res\<rparr>)"
    unfolding byId_def by (rule init_from_parents)
  have "\<forall>i \<in> set live. \<exists>chain. ancestor_chain live (item_parent i) chain \<and>
      dd_value res (item_id i) = chain"
  proof
    fix i assume i: "i \<in> set live"
    then have "item_id i \<in> set (dict_keys byId)"
      using ids by (metis image_eqI list.set_map)
    with a i show "\<exists>chain. ancestor_chain live (item_parent i) chain \<and>
        dd_value res (item_id i) = chain"
      by (simp add: dd_value_Nil)
  qed
  with init show ?thesis
    by (simp add: live_def)
qed

lemma live_all:
  assumes "distinct (map item_id its)"
  shows "set (map snd (fst (createDictsForItems its))) = set its"
proof
  show "set (map snd (fst (createDictsForItems its))) \<subseteq> set its"
    using byId_entries by auto
  show "set its \<subseteq> set (map snd (fst (createDictsForItems its)))"
  proof
    fix i assume "i \<in> set its"
    with assms have "map_of (fst (createDictsForItems its)) (item_id i) = Some i"
      by (rule byId_distinct)
    then have "(item_id i, i) \<in> set (fst (createDictsForItems its))"
      by (rule map_of_SomeD)
    then show "i \<in> set (map snd (fst (createDictsForItems its)))"
      by force
  qed
qed

lemma init_valid:
  assumes v: "valid_items its"
  shows "\<exists>s. TreeStore_init its = Some (Inr s) \<and>
     (\<forall>i \<in> set its.
        \<exists>chain. ancestor_chain its (item_parent i) chain \<and>
          dd_value (idAllParents s) (item_id i) = chain)"
proof -
  from v have d: "distinct (map item_id its)" and nd: "no_dangling its"
    and ac: "acyclic (parent_rel its)"
    by (simp_all add: valid_items_def)
  from init_total[OF nd ac] obtain s where s: "TreeStore_init its = Some (Inr s)"
    and c: "\<forall>i \<in> set (map snd (itemId s)).
        \<exists>chain. ancestor_chain (map snd (itemId s)) (item_parent i) chain \<and>
          dd_value (idAllParents s) (item_id i) = chain"
    by blast
  have eq: "set (map snd (itemId s)) = set its"
    using live_all[OF d] init_fields(2)[OF s] by simp
  have "\<forall>i \<in> set its.
        \<exists>chain. ancestor_chain its (item_parent i) chain \<and>
          dd_value (idAllParents s) (item_id i) = chain"
  proof
    fix i assume "i \<in> set its"
    then have "i \<in> set (map snd (itemId s))"
      using eq by simp
    with c obtain chain where "ancestor_chain (map snd (itemId s)) (item_parent i) chain"
      and "dd_value (idAllParents s) (item_id i) = chain"
      by blast
    then show "\<exists>chain. ancestor_chain its (item_parent i) chain \<and>
          dd_value (idAllParents s) (item_id i) = chain"
      using ancestor_chain_set[OF eq] by simp
  qed
  with s show ?thesis by blast
qed

section \<open>What the queries answer\<close>

lemma getItem_fst:
  "fst (getItem s X) =
     (case map_of (itemId s) X of None \<Rightarrow> Inl (IdNotFoundError X) | Some i \<Rightarrow> Inr i)"
  by (simp add: getItem_def dict_contains_def split: option.splits)

lemma getChildren_fst:
  "fst (getChildren s X) =
     (if map_of (itemId s) X = None then Inl (IdNotFoundError X)
      else Inr (dd_value (parentChild s) X))"
  by (simp add: getChildren_def dict_contains_def dd_getitem_def dd_value_def
      split: option.splits)

lemma getAllParents_fst:
  "fst (getAllParents s X) =
     (if map_of (itemId s) X = None then Inl (IdNotFoundError X)
      else Inr (dd_value (idAllParents s) X))"
  by (simp add: getAllParents_def dict_contains_def dd_getitem_def dd_value_def
      split: option.splits)

text \<open>The answer to a query, and what it leaves of the store.\<close>

lemma run_query_fst:
  "fst (run_query s q) =
     (case q of
        GetAll \<Rightarrow> ItemList (items s)
      | GetItem X \<Rightarrow>
          (case map_of (itemId s) X of
             None \<Rightarrow> Raised (IdNotFoundError X) | Some i \<Rightarrow> OneItem i)
      | GetChildren X \<Rightarrow>
          (if map_of (itemId s) X = None then Raised (IdNotFoundError X)
           else ItemList (dd_value (parentChild s) X))
      | GetAllParents X \<Rightarrow>
          (if map_of (itemId s) X = None then Raised (IdNotFoundError X)
           else ItemList (dd_value (idAllParents s) X)))"
  by (cases q)
    (simp_all add: getAll_def getItem_def getChildren_def getAllParents_def
      dict_contains_def dd_getitem_def dd_value_def split: option.splits)

lemma run_query_snd:
  "items (snd (run_query s q)) = items s"
  "itemId (snd (run_query s q)) = itemId s"
  "dd_value (parentChild (snd (run_query s q))) k = dd_value (parentChild s) k"
  "dd_value (idAllParents (snd (run_query s q))) k = dd_value (idAllParents s) k"
  by (cases q;
      simp add: getAll_def getItem_def getChildren_def getAllParents_def
        dict_contains_def dd_getitem_def dd_value_def AList.update_conv'
        split: option.splits)+

lemma run_queries_frame:
  "items (run_queries s qs) = items s \<and>
   itemId (run_queries s qs) = itemId s \<and>
   (\<forall>k. dd_value (parentChild (run_queries s qs)) k = dd_value (parentChild s) k) \<and>
   (\<forall>k. dd_value (idAllParents (run_queries s qs)) k = dd_value (idAllParents s) k)"
  by (induction qs arbitrary: s) (simp_all add: run_query_snd)

text \<open>The store after a query, and after a list of queries, exactly.\<close>

lemma update_absent: "map_of d k = None \<Longrightarrow> AList.update k v d = d @ [(k, v)]"
  by (induction d) (auto split: if_splits)

lemma dict_contains_snoc:
  "dict_contains (d @ [(X, v)]) Y \<longleftrightarrow> dict_contains d Y \<or> Y = X"
  by (auto simp add: dict_contains_def map_add_def split: option.splits)

lemma fresh_keys_Nil: "fresh_keys byId d [] = []"
  by (simp add: fresh_keys_def)

lemma fresh_keys_Cons:
  "fresh_keys byId d (X # Xs) =
     (if dict_contains byId X \<and> \<not> dict_contains d X
      then X # fresh_keys byId (d @ [(X, [])]) Xs
      else fresh_keys byId d Xs)"
proof -
  have "removeAll X (filter (\<lambda>Y. dict_contains byId Y \<and> \<not> dict_contains d Y) Xs) =
      filter (\<lambda>Y. dict_contains byId Y \<and> \<not> dict_contains (d @ [(X, [])]) Y) Xs"
    by (induction Xs) (auto simp add: dict_contains_snoc)
  then show ?thesis
    by (simp add: fresh_keys_def)
qed

lemma getAll_snd: "snd (getAll s) = s"
  by (simp add: getAll_def)

lemma getItem_snd: "snd (getItem s X) = s"
  by (simp add: getItem_def split: option.splits)

lemma getChildren_snd:
  "snd (getChildren s X) =
     (if dict_contains (itemId s) X \<and> \<not> dict_contains (parentChild s) X
      then s\<lparr>parentChild := parentChild s @ [(X, [])]\<rparr> else s)"
  by (auto simp add: getChildren_def dd_getitem_def dict_contains_def update_absent
      split: option.splits)

lemma getAllParents_snd:
  "snd (getAllParents s X) =
     (if dict_contains (itemId s) X \<and> \<not> dict_contains (idAllParents s) X
      then s\<lparr>idAllParents := idAllParents s @ [(X, [])]\<rparr> else s)"
  by (auto simp add: getAllParents_def dd_getitem_def dict_contains_def update_absent
      split: option.splits)

lemma snd_case_reply:
  "snd (case p of (Inl e, s') \<Rightarrow> (f e, s') | (Inr r, s') \<Rightarrow> (g r, s')) = snd p"
  by (cases p; cases "fst p") auto

lemma snd_case_pair: "snd (case p of (r, s') \<Rightarrow> (f r, s')) = snd p"
  by (cases p) simp

lemmas run_query_store = snd_case_reply snd_case_pair getAll_snd getItem_snd

lemma run_queries_store:
  "run_queries s qs =
     s\<lparr>parentChild := parentChild s @
          map (\<lambda>X. (X, [])) (fresh_keys (itemId s) (parentChild s) (asked_children qs)),
        idAllParents := idAllParents s @
          map (\<lambda>X. (X, [])) (fresh_keys (itemId s) (idAllParents s) (asked_parents qs))\<rparr>"
proof (induction qs arbitrary: s)
  case Nil
  then show ?case
    by (simp add: fresh_keys_Nil)
next
  case (Cons q qs)
  show ?case
  proof (cases q)
    case GetAll
    then show ?thesis
      using Cons.IH[of s] by (simp add: run_query_store)
  next
    case (GetItem X)
    then show ?thesis
      using Cons.IH[of s] by (simp add: run_query_store)
  next
    case (GetChildren X)
    then show ?thesis
      using Cons.IH[of "snd (getChildren s X)"]
      by (simp add: run_query_store getChildren_snd fresh_keys_Cons)
  next
    case (GetAllParents X)
    then show ?thesis
      using Cons.IH[of "snd (getAllParents s X)"]
      by (simp add: run_query_store getAllParents_snd fresh_keys_Cons)
  qed
qed


section \<open>The scenario, built\<close>

lemmas test_defs = test_items_def item1_def item2_def item3_def item4_def item5_def
  item6_def item7_def item8_def root_def

lemma test_dicts:
  "createDictsForItems test_items = (itemId test_store, parentChild test_store)"
  by (simp add: createDictsForItems_def test_store_def test_defs dd_append_def dd_getitem_def)

lemma test_parents:
  "calculateParents (itemId test_store) = Some (Inr (idAllParents test_store))"
  by (simp add: calculateParents_def dict_keys_def test_store_def test_defs
      calculateParents_while.simps dd_append_def dd_getitem_def)

lemma test_init: "TreeStore_init test_items = Some (Inr test_store)"
  by (simp add: TreeStore_init_def test_dicts test_parents) (simp add: test_store_def)

lemma test_valid: "valid_items test_items"
proof -
  have "acyclic (parent_rel test_items)"
  proof (rule acyclic_by_rank)
    fix p c assume "(p, c) \<in> parent_rel test_items"
    then show "(case p of PInt n \<Rightarrow> nat n | _ \<Rightarrow> 0) < (case c of PInt n \<Rightarrow> nat n | _ \<Rightarrow> 0)"
      by (auto simp add: parent_rel_def test_defs)
  qed
  then show ?thesis
    by (simp add: valid_items_def no_dangling_def) (simp add: test_defs)
qed

lemma root_init: "TreeStore_init [item_root, item1] = Some (Inr root_store)"
proof -
  have "createDictsForItems [item_root, item1] = (itemId root_store, parentChild root_store)"
    by (simp add: createDictsForItems_def root_store_def item_root_def item1_def
        dd_append_def dd_getitem_def root_def)
  moreover have "calculateParents (itemId root_store) = Some (Inr (idAllParents root_store))"
    by (simp add: calculateParents_def dict_keys_def root_store_def item_root_def item1_def
        calculateParents_while.simps root_def)
  ultimately show ?thesis
    by (simp add: TreeStore_init_def) (simp add: root_store_def)
qed

section \<open>The tests of the source, and two malformed inputs\<close>

lemma testValidCommands:
  "fst (getAll test_store) = test_items"
  "fst (getItem test_store (PInt 7)) = Inr item7"
  "fst (getChildren test_store (PInt 4)) = Inr [item7, item8]"
  "fst (getChildren test_store (PInt 5)) = Inr []"
  "fst (getAllParents test_store (PInt 7)) = Inr [item4, item2, item1]"
  by (simp_all add: getAll_def getItem_fst getChildren_fst getAllParents_fst dd_value_def
      test_store_def root_def)

lemma testInvalidCommands:
  "fst (getItem test_store (PInt 0)) = Inl (IdNotFoundError (PInt 0))"
  "fst (getChildren test_store (PInt 0)) = Inl (IdNotFoundError (PInt 0))"
  "fst (getAllParents test_store (PInt 0)) = Inl (IdNotFoundError (PInt 0))"
  by (simp_all add: getItem_fst getChildren_fst getAllParents_fst test_store_def)

text \<open>A parent that is no item's identifier: the walk raises \<^verbatim>\<open>KeyError\<close> at line 64.\<close>

lemma dangling_parent_raises:
  "TreeStore_init [item2] = Some (Inl (KeyError (PInt 1)))"
  by (simp add: TreeStore_init_def createDictsForItems_def calculateParents_def dict_keys_def
      calculateParents_while.simps item2_def root_def dd_append_def dd_getitem_def)

text \<open>An item that is its own parent: the walk never leaves it, construction never returns.\<close>

lemma self_parent_walk:
  "calculateParents_while [(PInt 1, \<lparr>item_id = PInt 1, item_parent = PInt 1, item_fields = []\<rparr>)]
     key (PInt 1) acc = None"
proof -
  let ?d = "[(PInt 1, \<lparr>item_id = PInt 1, item_parent = PInt 1, item_fields = []\<rparr>)]"
  have "\<not> (byId = ?d \<and> p = PInt 1)"
    if "calculateParents_while byId key p acc = Some y" for byId key p acc y
    using that
    by (rule calculateParents_while.raw_induct
        [rotated, where P = "\<lambda>byId key p acc y. \<not> (byId = ?d \<and> p = PInt 1)"])
      (clarsimp simp add: root_def split: if_splits, blast)
  from this[of ?d key "PInt 1" acc] show ?thesis
    by (cases "calculateParents_while ?d key (PInt 1) acc") simp_all
qed

lemma self_parent_never_returns:
  "TreeStore_init [\<lparr>item_id = PInt 1, item_parent = PInt 1, item_fields = []\<rparr>] = None"
  by (simp add: TreeStore_init_def createDictsForItems_def calculateParents_def dict_keys_def
      self_parent_walk dd_append_def dd_getitem_def)

section \<open>The claims\<close>

text \<open>
  C1. On a valid input, \<open>getAllParents\<close> of a present item's identifier returns its
  ancestors, nearest first: nothing for an item whose parent is the root marker; else a
  list whose head is the item that the parent field names, in which every next element
  is the item that the previous element's parent field names, and whose last element
  has the root marker as its parent.
\<close>

theorem getAllParents_ancestors:
  assumes "valid_items its" and "x \<in> set its"
  shows "\<exists>s ps. TreeStore_init its = Some (Inr s) \<and>
     fst (getAllParents s (item_id x)) = Inr ps \<and>
     (item_parent x = root \<longrightarrow> ps = []) \<and>
     (item_parent x \<noteq> root \<longrightarrow>
        ps \<noteq> [] \<and> hd ps \<in> set its \<and> item_id (hd ps) = item_parent x \<and>
        item_parent (last ps) = root) \<and>
     (\<forall>n. Suc n < length ps \<longrightarrow>
        ps ! Suc n \<in> set its \<and> item_id (ps ! Suc n) = item_parent (ps ! n) \<and>
        item_parent (ps ! n) \<noteq> root)"
proof -
  from init_valid[OF assms(1)] assms(2)
  obtain s ps where s: "TreeStore_init its = Some (Inr s)"
    and c: "ancestor_chain its (item_parent x) ps"
    and d: "dd_value (idAllParents s) (item_id x) = ps"
    by blast
  have "distinct (map item_id its)"
    using assms(1) by (simp add: valid_items_def)
  then have "map_of (itemId s) (item_id x) = Some x"
    using assms(2) init_fields(2)[OF s] by (simp add: byId_distinct)
  then have "fst (getAllParents s (item_id x)) = Inr ps"
    by (simp add: getAllParents_fst d)
  with s ancestor_chain_index[OF c] show ?thesis
    by blast
qed

theorem getAllParents_ancestors_witness:
  "valid_items test_items \<and> item7 \<in> set test_items \<and>
   (\<exists>s ps. TreeStore_init test_items = Some (Inr s) \<and>
      fst (getAllParents s (PInt 7)) = Inr ps \<and>
      ps \<noteq> [] \<and> hd ps \<in> set test_items \<and> item_id (hd ps) = PInt 4 \<and>
      item_parent (last ps) = root)"
proof -
  have m: "item7 \<in> set test_items"
    by (simp add: test_items_def)
  have "item_parent item7 \<noteq> root" "item_parent item7 = PInt 4" "item_id item7 = PInt 7"
    by (simp_all add: item7_def root_def)
  with getAllParents_ancestors[OF test_valid m] test_valid m show ?thesis
    by auto
qed

text \<open>
  C2. On a valid input, \<open>getChildren\<close> of a present item's identifier returns the items
  of the input whose parent field is that identifier, all of them and no other, in the
  order of the input; the empty list when there is none.
\<close>

theorem getChildren_filter:
  assumes "valid_items its" and "x \<in> set its"
  shows "\<exists>s. TreeStore_init its = Some (Inr s) \<and>
     fst (getChildren s (item_id x)) =
       Inr (filter (\<lambda>i. item_parent i = item_id x) its)"
proof -
  from init_valid[OF assms(1)] obtain s where s: "TreeStore_init its = Some (Inr s)"
    by blast
  have "distinct (map item_id its)"
    using assms(1) by (simp add: valid_items_def)
  then have "map_of (itemId s) (item_id x) = Some x"
    using assms(2) init_fields(2)[OF s] by (simp add: byId_distinct)
  then have "fst (getChildren s (item_id x)) =
      Inr (filter (\<lambda>i. item_parent i = item_id x) its)"
    by (simp add: getChildren_fst init_fields(3)[OF s] children_filter)
  with s show ?thesis
    by blast
qed

theorem getChildren_filter_witness:
  "valid_items test_items \<and> item4 \<in> set test_items \<and> item5 \<in> set test_items \<and>
   (\<exists>s. TreeStore_init test_items = Some (Inr s) \<and>
      fst (getChildren s (PInt 4)) = Inr [item7, item8]) \<and>
   (\<exists>s. TreeStore_init test_items = Some (Inr s) \<and>
      fst (getChildren s (PInt 5)) = Inr [])"
proof -
  have m: "item4 \<in> set test_items" "item5 \<in> set test_items"
    by (simp_all add: test_items_def)
  have "filter (\<lambda>i. item_parent i = item_id item4) test_items = [item7, item8]"
    "filter (\<lambda>i. item_parent i = item_id item5) test_items = []"
    "item_id item4 = PInt 4" "item_id item5 = PInt 5"
    by (simp_all add: test_defs)
  with getChildren_filter[OF test_valid m(1)] getChildren_filter[OF test_valid m(2)]
    test_valid m
  show ?thesis
    by simp
qed

text \<open>
  C3, as the code has it. On a store that construction yielded, each of \<open>getItem\<close>,
  \<open>getChildren\<close> and \<open>getAllParents\<close> raises \<open>IdNotFoundError\<close> with the identifier it
  was given exactly when no item of the input has that identifier: so for a value that
  is only some item's parent, and so for the root marker when no item has it as its
  identifier. On the identifier of an item they return, \<open>getChildren\<close> the empty list
  when the item has no child.
\<close>

theorem queries_raise_iff_absent:
  assumes "TreeStore_init its = Some (Inr s)"
  shows "(X \<notin> item_id ` set its \<longrightarrow>
        fst (getItem s X) = Inl (IdNotFoundError X) \<and>
        fst (getChildren s X) = Inl (IdNotFoundError X) \<and>
        fst (getAllParents s X) = Inl (IdNotFoundError X)) \<and>
     (X \<in> item_id ` set its \<longrightarrow>
        (\<exists>i. fst (getItem s X) = Inr i) \<and>
        fst (getChildren s X) = Inr (filter (\<lambda>i. item_parent i = X) its) \<and>
        (\<exists>ps. fst (getAllParents s X) = Inr ps)) \<and>
     (X \<in> item_parent ` set its \<and> X \<notin> item_id ` set its \<longrightarrow>
        fst (getItem s X) = Inl (IdNotFoundError X) \<and>
        fst (getChildren s X) = Inl (IdNotFoundError X) \<and>
        fst (getAllParents s X) = Inl (IdNotFoundError X)) \<and>
     (root \<notin> item_id ` set its \<longrightarrow>
        fst (getItem s root) = Inl (IdNotFoundError root) \<and>
        fst (getChildren s root) = Inl (IdNotFoundError root) \<and>
        fst (getAllParents s root) = Inl (IdNotFoundError root))"
proof -
  have absent: "fst (getItem s Y) = Inl (IdNotFoundError Y) \<and>
        fst (getChildren s Y) = Inl (IdNotFoundError Y) \<and>
        fst (getAllParents s Y) = Inl (IdNotFoundError Y)"
    if "Y \<notin> item_id ` set its" for Y
  proof -
    have "map_of (itemId s) Y = None"
      using that init_fields(2)[OF assms] byId_None[of its Y] by simp
    then show ?thesis
      by (simp add: getItem_fst getChildren_fst getAllParents_fst)
  qed
  have present: "(\<exists>i. fst (getItem s X) = Inr i) \<and>
        fst (getChildren s X) = Inr (filter (\<lambda>i. item_parent i = X) its) \<and>
        (\<exists>ps. fst (getAllParents s X) = Inr ps)"
    if "X \<in> item_id ` set its"
  proof -
    have "map_of (itemId s) X \<noteq> None"
      using that init_fields(2)[OF assms] byId_None[of its X] by simp
    then show ?thesis
      by (auto simp add: getItem_fst getChildren_fst getAllParents_fst
          init_fields(3)[OF assms] children_filter)
  qed
  from absent[of X] absent[of root] present show ?thesis
    by blast
qed

theorem queries_raise_iff_absent_witness:
  "TreeStore_init test_items = Some (Inr test_store) \<and>
   fst (getItem test_store (PInt 0)) = Inl (IdNotFoundError (PInt 0)) \<and>
   fst (getChildren test_store (PInt 0)) = Inl (IdNotFoundError (PInt 0)) \<and>
   fst (getAllParents test_store (PInt 0)) = Inl (IdNotFoundError (PInt 0)) \<and>
   root \<in> item_parent ` set test_items \<and> root \<notin> item_id ` set test_items \<and>
   fst (getItem test_store root) = Inl (IdNotFoundError root) \<and>
   fst (getChildren test_store root) = Inl (IdNotFoundError root) \<and>
   fst (getAllParents test_store root) = Inl (IdNotFoundError root) \<and>
   fst (getChildren test_store (PInt 5)) = Inr []"
proof -
  have "PInt 0 \<notin> item_id ` set test_items" "root \<notin> item_id ` set test_items"
    "root \<in> item_parent ` set test_items"
    "PInt 5 \<in> item_id ` set test_items"
    "filter (\<lambda>i. item_parent i = PInt 5) test_items = []"
    by (simp_all add: test_defs)
  with queries_raise_iff_absent[OF test_init, of "PInt 0"]
    queries_raise_iff_absent[OF test_init, of root]
    queries_raise_iff_absent[OF test_init, of "PInt 5"] test_init
  show ?thesis
    by simp
qed

text \<open>
  C3, as the claim has it, fails on an input with an item whose identifier is the root
  marker: the store is built, and none of the three queries rejects the root marker.
\<close>

theorem queries_root_counterexample:
  "TreeStore_init [item_root, item1] = Some (Inr root_store) \<and>
   fst (getItem root_store root) = Inr item_root \<and>
   fst (getChildren root_store root) = Inr [item_root, item1] \<and>
   fst (getAllParents root_store root) = Inr []"
  by (simp add: root_init)
    (simp add: getItem_fst getChildren_fst getAllParents_fst dd_value_def root_store_def)

text \<open>
  C4. On a valid input, construction yields a store whose \<open>getAll\<close> returns the input
  list itself, element for element and in order; \<open>getAll\<close> has no error to raise.
\<close>

theorem getAll_is_input:
  assumes "valid_items its"
  shows "\<exists>s. TreeStore_init its = Some (Inr s) \<and> fst (getAll s) = its"
proof -
  from init_valid[OF assms] obtain s where s: "TreeStore_init its = Some (Inr s)"
    by blast
  then have "fst (getAll s) = its"
    by (simp add: getAll_def init_fields(1))
  with s show ?thesis
    by blast
qed

theorem getAll_is_input_witness:
  "valid_items test_items \<and>
   (\<exists>s. TreeStore_init test_items = Some (Inr s) \<and> fst (getAll s) = test_items)"
  using getAll_is_input[OF test_valid] test_valid by simp

text \<open>
  C5. On a valid input, \<open>getItem\<close> of an item's identifier returns that very item, its
  other fields as they came.
\<close>

theorem getItem_returns_item:
  assumes "valid_items its" and "i \<in> set its"
  shows "\<exists>s. TreeStore_init its = Some (Inr s) \<and> fst (getItem s (item_id i)) = Inr i"
proof -
  from init_valid[OF assms(1)] obtain s where s: "TreeStore_init its = Some (Inr s)"
    by blast
  have "distinct (map item_id its)"
    using assms(1) by (simp add: valid_items_def)
  then have "map_of (itemId s) (item_id i) = Some i"
    using assms(2) init_fields(2)[OF s] by (simp add: byId_distinct)
  then have "fst (getItem s (item_id i)) = Inr i"
    by (simp add: getItem_fst)
  with s show ?thesis
    by blast
qed

theorem getItem_returns_item_witness:
  "valid_items test_items \<and> item7 \<in> set test_items \<and>
   (\<exists>s. TreeStore_init test_items = Some (Inr s) \<and>
      fst (getItem s (PInt 7)) =
        Inr \<lparr>item_id = PInt 7, item_parent = PInt 4, item_fields = [(''type'', PNone)]\<rparr>)"
proof -
  have m: "item7 \<in> set test_items"
    by (simp add: test_items_def)
  from getItem_returns_item[OF test_valid m] test_valid m show ?thesis
    by (simp add: item7_def)
qed

text \<open>
  C6. On a finite input with unique identifiers, no dangling parent and no cycle,
  construction returns, raises nothing and yields the store of the input's dictionaries;
  the walk up from any item's parent returns.
\<close>

theorem construction_terminates:
  assumes "valid_items its"
  shows "\<exists>s. TreeStore_init its = Some (Inr s) \<and>
     items s = its \<and> (itemId s, parentChild s) = createDictsForItems its \<and>
     (\<forall>i \<in> set its. \<forall>key acc.
        \<exists>res. calculateParents_while (itemId s) key (item_parent i) acc = Some (Inr res))"
proof -
  from init_valid[OF assms] obtain s where s: "TreeStore_init its = Some (Inr s)"
    by blast
  note f = init_fields[OF s]
  have d: "distinct (map item_id its)" and nd: "no_dangling its"
    using assms by (simp_all add: valid_items_def)
  have look: "\<And>i. i \<in> set its \<Longrightarrow> map_of (itemId s) (item_id i) = Some i"
    using d f(2) by (simp add: byId_distinct)
  have "\<forall>i \<in> set its. \<forall>key acc.
        \<exists>res. calculateParents_while (itemId s) key (item_parent i) acc = Some (Inr res)"
  proof (intro ballI allI)
    fix i key acc assume "i \<in> set its"
    with nd have "item_parent i = root \<or> item_parent i \<in> item_id ` set its"
      by (simp add: no_dangling_def)
    from while_chain[OF assms look this, of key acc]
    show "\<exists>res. calculateParents_while (itemId s) key (item_parent i) acc = Some (Inr res)"
      by blast
  qed
  with s f(1,2,3) show ?thesis
    by simp
qed

theorem construction_terminates_witness:
  "valid_items test_items \<and>
   (\<exists>s. TreeStore_init test_items = Some (Inr s) \<and> items s = test_items \<and>
      (itemId s, parentChild s) = createDictsForItems test_items)"
  using construction_terminates[OF test_valid] test_valid by blast

text \<open>
  C7, as the code has it. A query answers the same when it is asked again, and after
  any list of queries the item list and the identifier dictionary are what they were,
  every key of the children and ancestors dictionaries stands for the list it stood
  for, and every query is answered as before. What a query does to the store is this
  and no more: \<open>getAll\<close>, \<open>getItem\<close> and a query that raises leave it as it was;
  \<open>getChildren\<close> of an item's identifier that is no key of the children dictionary yet
  appends that key with the empty list to it, and \<open>getAllParents\<close> does so to the
  ancestors dictionary. After a list of queries each of the two dictionaries is the one
  before, followed by the keys so appended, each once and in the order first asked.
\<close>

theorem queries_keep_answers:
  "fst (run_query (snd (run_query s q)) q) = fst (run_query s q) \<and>
   fst (run_query (run_queries s qs) q) = fst (run_query s q) \<and>
   items (run_queries s qs) = items s \<and>
   itemId (run_queries s qs) = itemId s \<and>
   dd_value (parentChild (run_queries s qs)) k = dd_value (parentChild s) k \<and>
   dd_value (idAllParents (run_queries s qs)) k = dd_value (idAllParents s) k \<and>
   snd (getAll s) = s \<and>
   snd (getItem s X) = s \<and>
   snd (getChildren s X) =
     (if dict_contains (itemId s) X \<and> \<not> dict_contains (parentChild s) X
      then s\<lparr>parentChild := parentChild s @ [(X, [])]\<rparr> else s) \<and>
   snd (getAllParents s X) =
     (if dict_contains (itemId s) X \<and> \<not> dict_contains (idAllParents s) X
      then s\<lparr>idAllParents := idAllParents s @ [(X, [])]\<rparr> else s) \<and>
   run_queries s qs =
     s\<lparr>parentChild := parentChild s @
          map (\<lambda>X. (X, [])) (fresh_keys (itemId s) (parentChild s) (asked_children qs)),
        idAllParents := idAllParents s @
          map (\<lambda>X. (X, [])) (fresh_keys (itemId s) (idAllParents s) (asked_parents qs))\<rparr>"
proof -
  have "fst (run_query (run_queries s qs) q) = fst (run_query s q)" for qs
    unfolding run_query_fst using run_queries_frame[of s qs] by (cases q) simp_all
  from this[of qs] this[of "[q]"] run_queries_frame[of s qs]
  have "fst (run_query (snd (run_query s q)) q) = fst (run_query s q) \<and>
      fst (run_query (run_queries s qs) q) = fst (run_query s q) \<and>
      items (run_queries s qs) = items s \<and>
      itemId (run_queries s qs) = itemId s \<and>
      dd_value (parentChild (run_queries s qs)) k = dd_value (parentChild s) k \<and>
      dd_value (idAllParents (run_queries s qs)) k = dd_value (idAllParents s) k"
    by simp
  with getAll_snd[of s] getItem_snd[of s X] getChildren_snd[of s X] getAllParents_snd[of s X]
    run_queries_store[of s qs]
  show ?thesis
    by (intro conjI) blast+
qed

theorem queries_keep_answers_witness:
  "fst (run_query (snd (run_query test_store (GetChildren (PInt 5)))) (GetChildren (PInt 5)))
     = ItemList [] \<and>
   fst (run_query (run_queries test_store [GetChildren (PInt 5), GetAllParents (PInt 1)])
     (GetAllParents (PInt 7))) = ItemList [item4, item2, item1] \<and>
   itemId (run_queries test_store [GetChildren (PInt 5), GetAllParents (PInt 1)])
     = itemId test_store \<and>
   snd (getChildren test_store (PInt 0)) = test_store \<and>
   snd (getChildren test_store (PInt 4)) = test_store \<and>
   snd (getChildren test_store (PInt 5)) =
     test_store\<lparr>parentChild := parentChild test_store @ [(PInt 5, [])]\<rparr> \<and>
   snd (getAllParents test_store (PInt 1)) =
     test_store\<lparr>idAllParents := idAllParents test_store @ [(PInt 1, [])]\<rparr> \<and>
   run_queries test_store
     [GetChildren (PInt 5), GetAllParents (PInt 1), GetChildren (PInt 0), GetItem (PInt 7),
      GetChildren (PInt 5), GetChildren (PInt 4), GetChildren (PInt 8), GetAll] =
     test_store\<lparr>parentChild := parentChild test_store @ [(PInt 5, []), (PInt 8, [])],
                 idAllParents := idAllParents test_store @ [(PInt 1, [])]\<rparr>"
proof -
  have a: "fst (run_query test_store (GetChildren (PInt 5))) = ItemList []"
    "fst (run_query test_store (GetAllParents (PInt 7))) = ItemList [item4, item2, item1]"
    by (subst run_query_fst, simp add: dd_value_def test_store_def root_def)+
  have c: "\<not> dict_contains (itemId test_store) (PInt 0)"
    "dict_contains (itemId test_store) (PInt 4)" "dict_contains (parentChild test_store) (PInt 4)"
    "dict_contains (itemId test_store) (PInt 5)"
    "\<not> dict_contains (parentChild test_store) (PInt 5)"
    "dict_contains (itemId test_store) (PInt 1)"
    "\<not> dict_contains (idAllParents test_store) (PInt 1)"
    by (simp_all add: dict_contains_def test_store_def root_def)
  have f: "fresh_keys (itemId test_store) (parentChild test_store)
       [PInt 5, PInt 0, PInt 5, PInt 4, PInt 8] = [PInt 5, PInt 8]"
    "fresh_keys (itemId test_store) (idAllParents test_store) [PInt 1] = [PInt 1]"
    by (simp_all add: fresh_keys_def dict_contains_def test_store_def root_def)
  note again = queries_keep_answers[THEN conjunct1]
  note later = queries_keep_answers[THEN conjunct2, THEN conjunct1]
  note rest = queries_keep_answers[THEN conjunct2, THEN conjunct2, THEN conjunct2]
  note frame = rest[THEN conjunct2, THEN conjunct2, THEN conjunct2, THEN conjunct2,
      THEN conjunct2]
  have w1: "fst (run_query (snd (run_query test_store (GetChildren (PInt 5))))
      (GetChildren (PInt 5))) = ItemList []"
    using again[of test_store "GetChildren (PInt 5)"] a(1) by (rule trans)
  have w2: "fst (run_query (run_queries test_store [GetChildren (PInt 5), GetAllParents (PInt 1)])
      (GetAllParents (PInt 7))) = ItemList [item4, item2, item1]"
    using later[of test_store "[GetChildren (PInt 5), GetAllParents (PInt 1)]"
        "GetAllParents (PInt 7)"] a(2)
    by (rule trans)
  have w3: "itemId (run_queries test_store [GetChildren (PInt 5), GetAllParents (PInt 1)])
      = itemId test_store"
    by (rule rest[THEN conjunct1])
  have w4: "snd (getChildren test_store (PInt 0)) = test_store"
    "snd (getChildren test_store (PInt 4)) = test_store"
    "snd (getChildren test_store (PInt 5)) =
       test_store\<lparr>parentChild := parentChild test_store @ [(PInt 5, [])]\<rparr>"
    using frame[THEN conjunct1, of test_store "PInt 0"]
      frame[THEN conjunct1, of test_store "PInt 4"]
      frame[THEN conjunct1, of test_store "PInt 5"] c
    by simp_all
  have w5: "snd (getAllParents test_store (PInt 1)) =
       test_store\<lparr>idAllParents := idAllParents test_store @ [(PInt 1, [])]\<rparr>"
    using frame[THEN conjunct2, THEN conjunct1, of test_store "PInt 1"] c
    by simp
  have w6: "run_queries test_store
     [GetChildren (PInt 5), GetAllParents (PInt 1), GetChildren (PInt 0), GetItem (PInt 7),
      GetChildren (PInt 5), GetChildren (PInt 4), GetChildren (PInt 8), GetAll] =
     test_store\<lparr>parentChild := parentChild test_store @ [(PInt 5, []), (PInt 8, [])],
                 idAllParents := idAllParents test_store @ [(PInt 1, [])]\<rparr>"
    using frame[THEN conjunct2, THEN conjunct2, of test_store
        "[GetChildren (PInt 5), GetAllParents (PInt 1), GetChildren (PInt 0), GetItem (PInt 7),
          GetChildren (PInt 5), GetChildren (PInt 4), GetChildren (PInt 8), GetAll]"] f
    by (simp del: run_queries.simps)
  from w1 w2 w3 w4 w5 w6 show ?thesis
    by (intro conjI)
qed

text \<open>
  C7, as the claim has it, fails on the scenario of the tests: \<open>getChildren\<close> of item 5,
  which has no child, returns the empty list and leaves the key 5 in the children
  dictionary, which did not have it.
\<close>

theorem queries_mutate_counterexample:
  "TreeStore_init test_items = Some (Inr test_store) \<and>
   getChildren test_store (PInt 5) =
     (Inr [], test_store\<lparr>parentChild := parentChild test_store @ [(PInt 5, [])]\<rparr>) \<and>
   \<not> dict_contains (parentChild test_store) (PInt 5) \<and>
   dict_contains (parentChild (snd (getChildren test_store (PInt 5)))) (PInt 5) \<and>
   run_queries test_store [GetChildren (PInt 5)] \<noteq> test_store"
proof -
  have g: "getChildren test_store (PInt 5) =
     (Inr [], test_store\<lparr>parentChild := parentChild test_store @ [(PInt 5, [])]\<rparr>)"
    by (simp add: getChildren_def dict_contains_def dd_getitem_def test_store_def root_def)
  have a: "\<not> dict_contains (parentChild test_store) (PInt 5)"
    by (simp add: dict_contains_def test_store_def root_def)
  have b: "dict_contains (parentChild (snd (getChildren test_store (PInt 5)))) (PInt 5)"
    by (simp add: g) (simp add: dict_contains_def test_store_def root_def)
  have "parentChild (run_queries test_store [GetChildren (PInt 5)]) \<noteq> parentChild test_store"
    by (simp add: g)
  then have "run_queries test_store [GetChildren (PInt 5)] \<noteq> test_store"
    by auto
  with test_init g a b show ?thesis
    by simp
qed

text \<open>
  C8. When the input has no dangling parent and no cycle, and two of its items share an
  identifier, construction returns and raises nothing, and \<open>getItem\<close> of that identifier
  returns the last item that carries it.
\<close>

theorem later_duplicate_wins:
  assumes "no_dangling (xs @ x # ys @ y # zs)"
    and "acyclic (parent_rel (xs @ x # ys @ y # zs))"
    and "item_id x = item_id y"
    and "item_id y \<notin> item_id ` set zs"
  shows "\<exists>s. TreeStore_init (xs @ x # ys @ y # zs) = Some (Inr s) \<and>
     fst (getItem s (item_id x)) = Inr y"
proof -
  from init_total[OF assms(1,2)]
  obtain s where s: "TreeStore_init (xs @ x # ys @ y # zs) = Some (Inr s)"
    by blast
  have "map_of (fst (createDictsForItems ((xs @ x # ys) @ y # zs))) (item_id y) = Some y"
    using assms(4) by (intro byId_later) simp_all
  then have "map_of (itemId s) (item_id x) = Some y"
    using init_fields(2)[OF s] assms(3) by simp
  then have "fst (getItem s (item_id x)) = Inr y"
    by (simp add: getItem_fst)
  with s show ?thesis
    by blast
qed

theorem later_duplicate_wins_witness:
  "no_dangling [item1, item2, item1_again] \<and>
   acyclic (parent_rel [item1, item2, item1_again]) \<and>
   item_id item1 = item_id item1_again \<and> item1 \<noteq> item1_again \<and>
   (\<exists>s. TreeStore_init [item1, item2, item1_again] = Some (Inr s) \<and>
      fst (getItem s (PInt 1)) = Inr item1_again)"
proof -
  have nd: "no_dangling ([] @ item1 # [item2] @ item1_again # [])"
    by (simp add: no_dangling_def item1_def item2_def item1_again_def root_def)
  have ac: "acyclic (parent_rel ([] @ item1 # [item2] @ item1_again # []))"
  proof (rule acyclic_by_rank)
    fix p c assume "(p, c) \<in> parent_rel ([] @ item1 # [item2] @ item1_again # [])"
    then show "(case p of PInt n \<Rightarrow> nat n | _ \<Rightarrow> 0) < (case c of PInt n \<Rightarrow> nat n | _ \<Rightarrow> 0)"
      by (auto simp add: parent_rel_def item1_def item2_def item1_again_def root_def)
  qed
  have e: "item_id item1 = item_id item1_again" "item_id item1 = PInt 1"
    "item1 \<noteq> item1_again"
    by (simp_all add: item1_def item1_again_def)
  have l: "item_id item1_again \<notin> item_id ` set []"
    by simp
  from later_duplicate_wins[OF nd ac e(1) l] nd ac e show ?thesis
    by simp
qed

text \<open>
  C9, as the code has it. When no item of the input has the root marker as its
  identifier, \<open>getChildren\<close> of the root marker raises \<open>IdNotFoundError\<close>, although the
  children dictionary keeps the root items under that key.
\<close>

theorem getChildren_root_raises:
  assumes "TreeStore_init its = Some (Inr s)" and "root \<notin> item_id ` set its"
  shows "fst (getChildren s root) = Inl (IdNotFoundError root) \<and>
     dd_value (parentChild s) root = filter (\<lambda>i. item_parent i = root) its"
proof -
  have "map_of (itemId s) root = None"
    using init_fields(2)[OF assms(1)] byId_None[of its root] assms(2) by simp
  then show ?thesis
    by (simp add: getChildren_fst init_fields(3)[OF assms(1)] children_filter)
qed

theorem getChildren_root_raises_witness:
  "TreeStore_init test_items = Some (Inr test_store) \<and>
   root \<notin> item_id ` set test_items \<and>
   fst (getChildren test_store root) = Inl (IdNotFoundError root) \<and>
   dd_value (parentChild test_store) root = [item1]"
proof -
  have r: "root \<notin> item_id ` set test_items"
    by (simp add: test_defs)
  have "filter (\<lambda>i. item_parent i = root) test_items = [item1]"
    by (simp add: test_defs)
  with getChildren_root_raises[OF test_init r] test_init r show ?thesis
    by simp
qed

text \<open>
  C9, as the claim has it, fails on an input with an item whose identifier is the root
  marker: the store is built, and \<open>getChildren\<close> of the root marker returns the root items.
\<close>

theorem getChildren_root_counterexample:
  "TreeStore_init [item_root, item1] = Some (Inr root_store) \<and>
   fst (getChildren root_store root) = Inr [item_root, item1]"
proof -
  have "createDictsForItems [item_root, item1] = (itemId root_store, parentChild root_store)"
    by (simp add: createDictsForItems_def root_store_def item_root_def item1_def
        dd_append_def dd_getitem_def root_def)
  moreover have "calculateParents (itemId root_store) = Some (Inr (idAllParents root_store))"
    by (simp add: calculateParents_def dict_keys_def root_store_def item_root_def item1_def
        calculateParents_while.simps root_def)
  ultimately have "TreeStore_init [item_root, item1] = Some (Inr root_store)"
    by (simp add: TreeStore_init_def) (simp add: root_store_def)
  moreover have "fst (getChildren root_store root) = Inr [item_root, item1]"
    by (simp add: getChildren_fst dd_value_def root_store_def)
  ultimately show ?thesis
    by simp
qed

text \<open>
  C10. On a valid input, \<open>getItem\<close> of the identifier of any element of \<open>getChildren\<close> of
  a present identifier returns that element, before the call of \<open>getChildren\<close> and after.
\<close>

theorem children_roundtrip:
  assumes "valid_items its" and "x \<in> set its"
  shows "\<exists>s cs. TreeStore_init its = Some (Inr s) \<and>
     fst (getChildren s (item_id x)) = Inr cs \<and>
     (\<forall>c \<in> set cs.
        fst (getItem s (item_id c)) = Inr c \<and>
        fst (getItem (snd (getChildren s (item_id x))) (item_id c)) = Inr c)"
proof -
  from init_valid[OF assms(1)] obtain s where s: "TreeStore_init its = Some (Inr s)"
    by blast
  have d: "distinct (map item_id its)"
    using assms(1) by (simp add: valid_items_def)
  have look: "\<And>i. i \<in> set its \<Longrightarrow> map_of (itemId s) (item_id i) = Some i"
    using d init_fields(2)[OF s] by (simp add: byId_distinct)
  define cs where "cs = filter (\<lambda>i. item_parent i = item_id x) its"
  have g: "fst (getChildren s (item_id x)) = Inr cs"
    using look[OF assms(2)]
    by (simp add: getChildren_fst init_fields(3)[OF s] children_filter cs_def)
  have same: "itemId (snd (getChildren s (item_id x))) = itemId s"
    using run_query_snd(2)[of s "GetChildren (item_id x)"]
    by (simp split: prod.splits sum.splits)
  have "\<forall>c \<in> set cs.
        fst (getItem s (item_id c)) = Inr c \<and>
        fst (getItem (snd (getChildren s (item_id x))) (item_id c)) = Inr c"
  proof
    fix c assume "c \<in> set cs"
    then have "c \<in> set its"
      by (simp add: cs_def)
    from look[OF this] show "fst (getItem s (item_id c)) = Inr c \<and>
        fst (getItem (snd (getChildren s (item_id x))) (item_id c)) = Inr c"
      by (simp add: getItem_fst same)
  qed
  with s g show ?thesis
    by blast
qed

theorem children_roundtrip_witness:
  "valid_items test_items \<and> item4 \<in> set test_items \<and>
   (\<exists>s cs. TreeStore_init test_items = Some (Inr s) \<and>
      fst (getChildren s (PInt 4)) = Inr cs \<and>
      list_all (\<lambda>c. fst (getItem s (item_id c)) = Inr c) cs)"
proof -
  have m: "item4 \<in> set test_items"
    by (simp add: test_items_def)
  have "item_id item4 = PInt 4"
    by (simp add: item4_def)
  with children_roundtrip[OF test_valid m] test_valid m show ?thesis
    by (auto simp add: list_all_iff)
qed

end
